theory Spec2Isabelle
  imports Main "HOL-Library.Word" "HOL-Library.Multiset"
begin

unbundle bit_operations_syntax

section \<open>The Spritz engine of minspritz.c\<close>

text \<open>
  The state structure \<^verbatim>\<open>struct minspritz_s\<close> has six \<^verbatim>\<open>uint8_t\<close> registers and
  the array \<^verbatim>\<open>uint8_t S[N]\<close> with \<^verbatim>\<open>N = 256\<close>. The registers are 8-bit words, so that
  every assignment to them truncates as the C assignment does. The array is a list; a
  C object of this type always has 256 cells, which the theorems below assume as
  \<open>length (S q) = N\<close> where an index is read or written.

  Index expressions are evaluated in \<^verbatim>\<open>int\<close> in C (the operands are promoted) and
  then reduced \<^verbatim>\<open>% N\<close>; they are written the same way here, on natural numbers.
\<close>

type_synonym u8 = "8 word"

abbreviation N :: nat where
  "N \<equiv> 256"

definition LOW :: "u8 \<Rightarrow> u8" where
  "LOW b = b AND 0x0f"

definition HIGH :: "u8 \<Rightarrow> u8" where
  "HIGH b = (drop_bit 4 b) AND 0x0f"

record minspritz_s =
  i :: u8
  j :: u8
  k :: u8
  z :: u8
  a :: u8
  w :: u8
  S :: "u8 list"

text \<open>
  Three behaviours of the C program are undefined and are results of the model instead:
  an access to \<^verbatim>\<open>S\<close> or to the output buffer outside its bounds, a store through
  the null pointer that a failed \<^verbatim>\<open>malloc\<close> returns, and the overflow of an \<^verbatim>\<open>int\<close>
  loop counter.
\<close>

datatype fault = OutOfBounds | NullWrite | IntOverflow

text \<open>
  The largest value of the type \<^verbatim>\<open>int\<close>, which the platform fixes and not the program;
  \<^verbatim>\<open>int\<close> is taken to have 32 bits.
\<close>

definition INT_MAX :: nat where
  "INT_MAX = 2147483647"

subsection \<open>initialise_state\<close>

text \<open>
  The argument is the structure as the caller declared it, with indeterminate contents;
  the loop stores \<^verbatim>\<open>v\<close>, truncated to a byte, into cell \<^verbatim>\<open>v\<close>.
\<close>

definition initialise_state :: "minspritz_s \<Rightarrow> minspritz_s" where
  "initialise_state q =
     (let q1 = q\<lparr>i := 0, j := 0, k := 0, z := 0, a := 0, w := 1\<rparr>
      in fold (\<lambda>v q'. q'\<lparr>S := (S q')[v := of_nat v]\<rparr>) [0..<N] q1)"

subsection \<open>update and output\<close>

definition update :: "minspritz_s \<Rightarrow> minspritz_s" where
  "update q =
     (let q1 = q\<lparr>i := i q + w q\<rparr>;
          q2 = q1\<lparr>j := k q1 + S q1 ! ((unat (j q1) + unat (S q1 ! unat (i q1))) mod N)\<rparr>;
          q3 = q2\<lparr>k := i q2 + k q2 + S q2 ! (unat (j q2) mod N)\<rparr>;
          temp = S q3 ! (unat (i q3) mod N);
          q4 = q3\<lparr>S := (S q3)[unat (i q3) mod N := S q3 ! (unat (j q3) mod N)]\<rparr>;
          q5 = q4\<lparr>S := (S q4)[unat (j q4) mod N := temp]\<rparr>
      in q5)"

text \<open>\<^verbatim>\<open>output\<close> returns the byte together with the state it leaves.\<close>

definition "output" :: "minspritz_s \<Rightarrow> u8 \<times> minspritz_s" where
  "output q =
     (let q1 = q\<lparr>z := S q ! ((unat (j q) + unat (S q !
                  ((unat (i q) + unat (S q ! ((unat (z q) + unat (k q)) mod N))) mod N))) mod N)\<rparr>
      in (z q1, q1))"

subsection \<open>whip, crush, shuffle\<close>

text \<open>
  The \<^verbatim>\<open>for\<close> loop of \<^verbatim>\<open>whip\<close>, with its \<^verbatim>\<open>int\<close> counter and bound. The counter is
  incremented only while it is below the bound \<^verbatim>\<open>r\<close>, itself an \<^verbatim>\<open>int\<close>, so the
  increment cannot overflow; the same holds of the loop of \<^verbatim>\<open>squeeze\<close>.
\<close>

function whip_loop :: "int \<Rightarrow> int \<Rightarrow> minspritz_s \<Rightarrow> minspritz_s" where
  "whip_loop v r q = (if v < r then whip_loop (v + 1) r (update q) else q)"
  by pat_completeness auto
termination
  by (relation "measure (\<lambda>(v, r, q). nat (r - v))") auto

definition whip :: "minspritz_s \<Rightarrow> int \<Rightarrow> minspritz_s" where
  "whip q r = (let q1 = whip_loop 0 r q in q1\<lparr>w := w q1 + 2\<rparr>)"

text \<open>One iteration of the loop of \<^verbatim>\<open>crush\<close>, at counter \<^verbatim>\<open>v\<close>.\<close>

definition crush_body :: "nat \<Rightarrow> minspritz_s \<Rightarrow> minspritz_s" where
  "crush_body v q =
     (if S q ! v > S q ! (N - 1 - v) then
        (let temp = S q ! v;
             q1 = q\<lparr>S := (S q)[v := S q ! (N - 1 - v)]\<rparr>;
             q2 = q1\<lparr>S := (S q1)[N - 1 - v := temp]\<rparr>
         in q2)
      else q)"

definition crush :: "minspritz_s \<Rightarrow> minspritz_s" where
  "crush q = fold crush_body [0..<N div 2] q"

definition shuffle :: "minspritz_s \<Rightarrow> minspritz_s" where
  "shuffle q =
     (let q1 = whip q (2 * int N);
          q2 = crush q1;
          q3 = whip q2 (2 * int N);
          q4 = crush q3;
          q5 = whip q4 (2 * int N)
      in q5\<lparr>a := 0\<rparr>)"

subsection \<open>absorb_nibble, absorb_stop, absorb\<close>

text \<open>
  \<^verbatim>\<open>absorb_nibble\<close> indexes \<^verbatim>\<open>S[(N/2) + x]\<close> without reduction; for a byte \<^verbatim>\<open>x\<close>
  above 127 the cell does not exist.
\<close>

definition absorb_nibble :: "minspritz_s \<Rightarrow> u8 \<Rightarrow> fault + minspritz_s" where
  "absorb_nibble q x =
     (let q1 = (if unat (a q) = N div 2 then shuffle q else q)
      in if N div 2 + unat x < N then
           (let temp = S q1 ! (unat (a q1) mod N);
                q2 = q1\<lparr>S := (S q1)[unat (a q1) mod N := S q1 ! (N div 2 + unat x)]\<rparr>;
                q3 = q2\<lparr>S := (S q2)[N div 2 + unat x := temp]\<rparr>
            in Inr (q3\<lparr>a := a q3 + 1\<rparr>))
         else Inl OutOfBounds)"

definition absorb_stop :: "minspritz_s \<Rightarrow> minspritz_s" where
  "absorb_stop q =
     (let q1 = (if unat (a q) = N div 2 then shuffle q else q)
      in q1\<lparr>a := a q1 + 1\<rparr>)"

text \<open>
  The input array and its length \<^verbatim>\<open>i_len\<close> are one list; the loop reads it by index.
  The length is a \<^verbatim>\<open>size_t\<close> but the counter \<^verbatim>\<open>v\<close> is an \<^verbatim>\<open>int\<close>: it is never
  negative, the test \<^verbatim>\<open>v < i_len\<close> compares it as an unsigned number, and \<^verbatim>\<open>v++\<close> at
  \<^verbatim>\<open>v = INT_MAX\<close> overflows, which happens after the byte at index \<^verbatim>\<open>INT_MAX\<close> of an
  input longer than \<^verbatim>\<open>INT_MAX\<close> bytes.
\<close>

function absorb_loop :: "nat \<Rightarrow> minspritz_s \<Rightarrow> u8 list \<Rightarrow> fault + minspritz_s" where
  "absorb_loop v q inp =
     (if v < length inp then
        (case absorb_nibble q (LOW (inp ! v)) of
           Inl e \<Rightarrow> Inl e
         | Inr q1 \<Rightarrow>
             (case absorb_nibble q1 (HIGH (inp ! v)) of
                Inl e \<Rightarrow> Inl e
              | Inr q2 \<Rightarrow>
                  (if v < INT_MAX then absorb_loop (v + 1) q2 inp else Inl IntOverflow)))
      else Inr q)"
  by pat_completeness auto
termination
  by (relation "measure (\<lambda>(v, q, inp). length inp - v)") auto

definition absorb :: "minspritz_s \<Rightarrow> u8 list \<Rightarrow> fault + minspritz_s" where
  "absorb q inp = absorb_loop 0 q inp"

subsection \<open>drip and squeeze\<close>

definition drip :: "minspritz_s \<Rightarrow> u8 \<times> minspritz_s" where
  "drip q =
     (let q1 = (if unat (a q) > 0 then shuffle q else q);
          q2 = update q1
      in output q2)"

text \<open>
  The outcome of \<^verbatim>\<open>malloc\<close> is an input of \<^verbatim>\<open>squeeze\<close>: \<open>None\<close> is the null pointer
  of a failed allocation, \<open>Some p\<close> a fresh block with indeterminate contents \<open>p\<close>.
  The loop stores each byte at index \<^verbatim>\<open>v\<close>; the result is the pointer and the state.
\<close>

function squeeze_loop ::
  "int \<Rightarrow> int \<Rightarrow> minspritz_s \<Rightarrow> u8 list \<Rightarrow> fault + (u8 list \<times> minspritz_s)" where
  "squeeze_loop v r q p =
     (if v < r then
        (let (b, q1) = drip q
         in if nat v < length p then squeeze_loop (v + 1) r q1 (p[nat v := b])
            else Inl OutOfBounds)
      else Inr (p, q))"
  by pat_completeness auto
termination
  by (relation "measure (\<lambda>(v, r, q, p). nat (r - v))") auto

definition squeeze ::
  "minspritz_s \<Rightarrow> int \<Rightarrow> u8 list option \<Rightarrow> fault + (u8 list option \<times> minspritz_s)" where
  "squeeze q r mem =
     (let q1 = (if unat (a q) > 0 then shuffle q else q)
      in case mem of
           None \<Rightarrow>
             (if 0 < r then (let (b, q2) = drip q1 in Inl NullWrite) else Inr (None, q1))
         | Some p \<Rightarrow>
             (case squeeze_loop 0 r q1 p of
                Inl e \<Rightarrow> Inl e
              | Inr (p', q2) \<Rightarrow> Inr (Some p', q2)))"

subsection \<open>The entry points\<close>


definition minminspritz_stream ::
  "minspritz_s \<Rightarrow> u8 list \<Rightarrow> u8 list option \<Rightarrow> fault + u8 list option" where
  "minminspritz_stream q0 m mem =
     (let q = initialise_state q0
      in case absorb q m of
           Inl e \<Rightarrow> Inl e
         | Inr q1 \<Rightarrow> map_sum id fst (squeeze q1 32 mem))"

section \<open>Specification-level definitions\<close>

text \<open>
  The definitions of this section follow the words of the specification, for comparison
  with the functions above. \<open>swap_cells\<close> is the exchange of two cells of the
  permutation array.
\<close>

definition swap_cells :: "u8 list \<Rightarrow> nat \<Rightarrow> nat \<Rightarrow> u8 list" where
  "swap_cells xs m n = xs[m := xs ! n, n := xs ! m]"

text \<open>
  \<open>absorb_nibble_spec\<close>: if \<open>a = 128\<close>, shuffle first; swap \<open>S[a mod 256]\<close> and
  \<open>S[128 + x]\<close>; increment \<open>a\<close>.
\<close>

definition absorb_nibble_spec :: "minspritz_s \<Rightarrow> u8 \<Rightarrow> minspritz_s" where
  "absorb_nibble_spec q x =
     (let q1 = (if a q = 128 then shuffle q else q)
      in q1\<lparr>S := swap_cells (S q1) (unat (a q1) mod 256) (128 + unat x), a := a q1 + 1\<rparr>)"

text \<open>
  \<open>absorb_spec\<close>: for each input byte \<open>b\<close>, in order, absorb the nibble \<open>b & 0x0F\<close>
  and then the nibble \<open>(b >> 4) & 0x0F\<close>.
\<close>

fun absorb_spec :: "minspritz_s \<Rightarrow> u8 list \<Rightarrow> minspritz_s" where
  "absorb_spec q [] = q"
| "absorb_spec q (b # bs) =
     absorb_spec
       (absorb_nibble_spec (absorb_nibble_spec q (b AND 0x0F)) (drop_bit 4 b AND 0x0F)) bs"

text \<open>\<open>drips n\<close>: the bytes of \<open>n\<close> successive calls of \<^verbatim>\<open>drip\<close>, and the final state.\<close>

fun drips :: "nat \<Rightarrow> minspritz_s \<Rightarrow> u8 list \<times> minspritz_s" where
  "drips 0 q = ([], q)"
| "drips (Suc n) q =
     (let (b, q1) = drip q;
          (bs, q2) = drips n q1
      in (b # bs, q2))"

text \<open>
  \<open>pending\<close>: the shuffle that \<^verbatim>\<open>squeeze\<close> and \<^verbatim>\<open>drip\<close> do first when nibbles have
  been absorbed since the last shuffle (\<open>a > 0\<close>).
\<close>

definition pending :: "minspritz_s \<Rightarrow> minspritz_s" where
  "pending q = (if a q = 0 then q else shuffle q)"

text \<open>The cursor triple of a state.\<close>

definition cursor :: "minspritz_s \<Rightarrow> u8 \<times> u8 \<times> u8" where
  "cursor q = (i q, j q, k q)"

text \<open>\<open>S\<close> holds every byte value once: it has 256 cells and no value twice.\<close>

definition is_permutation :: "u8 list \<Rightarrow> bool" where
  "is_permutation xs \<longleftrightarrow> length xs = N \<and> distinct xs"

subsection \<open>Sequences of calls\<close>

text \<open>
  A call of one of the operations on the state, with its arguments; \<open>calls\<close> runs a
  sequence of them from a state and stops at the first fault.
\<close>

datatype call =
    Update
  | Output
  | Crush
  | Whip int
  | Shuffle
  | Absorb_nibble u8
  | Absorb_stop
  | Absorb "u8 list"
  | Drip
  | Squeeze int "u8 list option"

fun call_result :: "call \<Rightarrow> minspritz_s \<Rightarrow> fault + minspritz_s" where
  "call_result Update q = Inr (update q)"
| "call_result Output q = Inr (snd (output q))"
| "call_result Crush q = Inr (crush q)"
| "call_result (Whip r) q = Inr (whip q r)"
| "call_result Shuffle q = Inr (shuffle q)"
| "call_result (Absorb_nibble x) q = absorb_nibble q x"
| "call_result Absorb_stop q = Inr (absorb_stop q)"
| "call_result (Absorb inp) q = absorb q inp"
| "call_result Drip q = Inr (snd (drip q))"
| "call_result (Squeeze r mem) q = map_sum id snd (squeeze q r mem)"

fun calls :: "call list \<Rightarrow> minspritz_s \<Rightarrow> fault + minspritz_s" where
  "calls [] q = Inr q"
| "calls (c # cs) q = (case call_result c q of Inl e \<Rightarrow> Inl e | Inr q' \<Rightarrow> calls cs q')"

section \<open>Basic facts\<close>

declare whip_loop.simps [simp del] absorb_loop.simps [simp del] squeeze_loop.simps [simp del]

lemma unat_mod_N [simp]: "unat (x::u8) mod N = unat x"
  using unsigned_less [of x, where ?'a = nat] by simp

lemma unat_add_mod_N [simp]: "(unat (x::u8) + unat y) mod N = unat (x + y)"
  by (simp add: unat_word_ariths)

lemma unat_add3_mod_N [simp]:
  "(unat (x::u8) + unat y + unat t) mod N = unat (x + y + t)"
  by (simp del: unat_add_mod_N add: unat_word_ariths mod_simps)

lemma unat_less_N [simp]: "unat (x::u8) < N"
  using unsigned_less [of x, where ?'a = nat] by simp

lemma unat_eq_128_iff: "unat (x::u8) = 128 \<longleftrightarrow> x = 128"
  by (simp add: word_unat_eq_iff)

subsection \<open>update\<close>

lemma update_eq:
  "update q =
     q\<lparr>i := i q + w q,
       j := k q + S q ! unat (j q + S q ! unat (i q + w q)),
       k := i q + w q + k q + S q ! unat (k q + S q ! unat (j q + S q ! unat (i q + w q))),
       S := (S q)[unat (i q + w q) := S q ! unat (k q + S q ! unat (j q + S q ! unat (i q + w q))),
                  unat (k q + S q ! unat (j q + S q ! unat (i q + w q))) := S q ! unat (i q + w q)]\<rparr>"
  by (simp add: update_def Let_def)

lemma length_S_update [simp]: "length (S (update q)) = length (S q)"
  by (simp add: update_eq)

lemma mset_S_update: "length (S q) = N \<Longrightarrow> mset (S (update q)) = mset (S q)"
  by (simp add: update_eq mset_swap)

lemma w_update [simp]: "w (update q) = w q"
  by (simp add: update_eq)

lemma a_update [simp]: "a (update q) = a q"
  by (simp add: update_eq)

lemma z_update [simp]: "z (update q) = z q"
  by (simp add: update_eq)

lemma length_S_funpow_update [simp]: "length (S ((update ^^ n) q)) = length (S q)"
  by (induction n) simp_all

lemma mset_S_funpow_update:
  "length (S q) = N \<Longrightarrow> mset (S ((update ^^ n) q)) = mset (S q)"
  by (induction n) (simp_all add: mset_S_update)

lemma w_funpow_update [simp]: "w ((update ^^ n) q) = w q"
  by (induction n) simp_all

lemma a_funpow_update [simp]: "a ((update ^^ n) q) = a q"
  by (induction n) simp_all

lemma z_funpow_update [simp]: "z ((update ^^ n) q) = z q"
  by (induction n) simp_all

subsection \<open>whip\<close>

text \<open>The loop of \<^verbatim>\<open>whip\<close> from counter \<open>v\<close> applies \<^verbatim>\<open>update\<close> \<open>r - v\<close> times.\<close>

lemma whip_loop_funpow: "whip_loop v r q = (update ^^ nat (r - v)) q"
proof (induction v r q rule: whip_loop.induct)
  case (1 v r q)
  show ?case
  proof (cases "v < r")
    case True
    then have "nat (r - v) = Suc (nat (r - (v + 1)))" by simp
    with True "1.IH" show ?thesis
      by (simp add: funpow_swap1 whip_loop.simps [of v r q])
  next
    case False
    then show ?thesis by (simp add: whip_loop.simps [of v r q])
  qed
qed

lemma whip_eq: "whip q r = ((update ^^ nat r) q)\<lparr>w := w q + 2\<rparr>"
  by (simp add: whip_def whip_loop_funpow Let_def)

lemma length_S_whip [simp]: "length (S (whip q r)) = length (S q)"
  by (simp add: whip_eq)

lemma mset_S_whip: "length (S q) = N \<Longrightarrow> mset (S (whip q r)) = mset (S q)"
  by (simp add: whip_eq mset_S_funpow_update)

lemma w_whip [simp]: "w (whip q r) = w q + 2"
  by (simp add: whip_eq)

lemma a_whip [simp]: "a (whip q r) = a q"
  by (simp add: whip_eq)

lemma z_whip [simp]: "z (whip q r) = z q"
  by (simp add: whip_eq)

subsection \<open>crush\<close>

lemma crush_body_fields [simp]:
  "i (crush_body v q) = i q" "j (crush_body v q) = j q" "k (crush_body v q) = k q"
  "z (crush_body v q) = z q" "a (crush_body v q) = a q" "w (crush_body v q) = w q"
  "length (S (crush_body v q)) = length (S q)"
  by (simp_all add: crush_body_def Let_def)

lemma mset_S_crush_body:
  "length (S q) = N \<Longrightarrow> v < N \<Longrightarrow> mset (S (crush_body v q)) = mset (S q)"
  by (simp add: crush_body_def Let_def mset_swap)

lemma fold_crush_body_fields [simp]:
  "i (fold crush_body vs q) = i q" "j (fold crush_body vs q) = j q"
  "k (fold crush_body vs q) = k q" "z (fold crush_body vs q) = z q"
  "a (fold crush_body vs q) = a q" "w (fold crush_body vs q) = w q"
  "length (S (fold crush_body vs q)) = length (S q)"
  by (induction vs arbitrary: q; simp)+

lemma mset_S_fold_crush_body:
  "length (S q) = N \<Longrightarrow> \<forall>v \<in> set vs. v < N \<Longrightarrow>
     mset (S (fold crush_body vs q)) = mset (S q)"
  by (induction vs arbitrary: q) (simp_all add: mset_S_crush_body)

lemma crush_fields [simp]:
  "i (crush q) = i q" "j (crush q) = j q" "k (crush q) = k q"
  "z (crush q) = z q" "a (crush q) = a q" "w (crush q) = w q"
  "length (S (crush q)) = length (S q)"
  by (simp_all add: crush_def)

lemma mset_S_crush: "length (S q) = N \<Longrightarrow> mset (S (crush q)) = mset (S q)"
  unfolding crush_def by (rule mset_S_fold_crush_body) simp_all

text \<open>
  An iteration of the loop of \<^verbatim>\<open>crush\<close> at \<open>v\<close> leaves the smaller of the cells
  \<open>v\<close> and \<open>255 - v\<close> in cell \<open>v\<close> and the larger in cell \<open>255 - v\<close>, and no other
  cell changes.
\<close>

lemma crush_body_nth:
  assumes "length (S q) = N" "v < 128" "u < N"
  shows "S (crush_body v q) ! u =
           (if u = v then min (S q ! v) (S q ! (255 - v))
            else if u = 255 - v then max (S q ! v) (S q ! (255 - v))
            else S q ! u)"
  using assms by (auto simp: crush_body_def Let_def nth_list_update min_def max_def)

lemma crush_body_nth_other:
  assumes "length (S q) = N" "v < 128" "u < N" "u \<noteq> v" "u \<noteq> 255 - v"
  shows "S (crush_body v q) ! u = S q ! u"
  using assms by (simp add: crush_body_nth)

lemma crush_body_id: "S q ! v \<le> S q ! (255 - v) \<Longrightarrow> crush_body v q = q"
  by (simp add: crush_body_def)

lemma fold_crush_body_id:
  "\<forall>v \<in> set vs. S q ! v \<le> S q ! (255 - v) \<Longrightarrow> fold crush_body vs q = q"
  by (induction vs) (simp_all add: crush_body_id)

lemma crush_prefix:
  assumes "length (S q) = N" "n \<le> 128"
  shows "(\<forall>v<n. S (fold crush_body [0..<n] q) ! v \<le> S (fold crush_body [0..<n] q) ! (255 - v))
       \<and> (\<forall>u. n \<le> u \<and> u < 256 - n \<longrightarrow> S (fold crush_body [0..<n] q) ! u = S q ! u)"
  using assms(2)
proof (induction n)
  case 0
  then show ?case by simp
next
  case (Suc n)
  let ?q = "fold crush_body [0..<n] q"
  have len: "length (S ?q) = N" using assms(1) by simp
  have n: "n < 128" using Suc.prems by simp
  have IH1: "\<forall>v<n. S ?q ! v \<le> S ?q ! (255 - v)"
    and IH2: "\<forall>u. n \<le> u \<and> u < 256 - n \<longrightarrow> S ?q ! u = S q ! u"
    using Suc by simp_all
  have step: "fold crush_body [0..<Suc n] q = crush_body n ?q" by simp
  show ?case
    unfolding step
  proof (intro conjI allI impI)
    fix v assume v: "v < Suc n"
    show "S (crush_body n ?q) ! v \<le> S (crush_body n ?q) ! (255 - v)"
    proof (cases "v = n")
      case True
      have "S (crush_body n ?q) ! n = min (S ?q ! n) (S ?q ! (255 - n))"
        using n by (simp add: crush_body_nth [OF len n])
      moreover have "S (crush_body n ?q) ! (255 - n) = max (S ?q ! n) (S ?q ! (255 - n))"
        using n by (simp add: crush_body_nth [OF len n])
      ultimately show ?thesis
        using True by (simp add: min_le_iff_disj le_max_iff_disj)
    next
      case False
      with v have "v < n" by simp
      with n have "v \<noteq> 255 - n" "255 - v \<noteq> n" "255 - v \<noteq> 255 - n" "v < N" "255 - v < N"
        by arith+
      with False have "S (crush_body n ?q) ! v = S ?q ! v"
        and "S (crush_body n ?q) ! (255 - v) = S ?q ! (255 - v)"
        by (simp_all add: crush_body_nth_other [OF len n])
      with IH1 \<open>v < n\<close> show ?thesis by simp
    qed
  next
    fix u assume u: "Suc n \<le> u \<and> u < 256 - Suc n"
    with n have "u \<noteq> n" "u \<noteq> 255 - n" "u < N" "n \<le> u \<and> u < 256 - n"
      by arith+
    with IH2 show "S (crush_body n ?q) ! u = S q ! u"
      by (simp add: crush_body_nth_other [OF len n])
  qed
qed

lemma crush_ordered:
  assumes "length (S q) = N" "v < 128"
  shows "S (crush q) ! v \<le> S (crush q) ! (255 - v)"
  using crush_prefix [OF assms(1), of 128] assms(2) by (simp add: crush_def)

lemma crush_fixed: "\<forall>v<128. S q ! v \<le> S q ! (255 - v) \<Longrightarrow> crush q = q"
  unfolding crush_def by (rule fold_crush_body_id) simp

subsection \<open>shuffle\<close>

lemma shuffle_eq:
  "shuffle q = (whip (crush (whip (crush (whip q 512)) 512)) 512)\<lparr>a := 0\<rparr>"
  by (simp add: shuffle_def Let_def)

lemma length_S_shuffle [simp]: "length (S (shuffle q)) = length (S q)"
  by (simp add: shuffle_eq)

lemma mset_S_shuffle: "length (S q) = N \<Longrightarrow> mset (S (shuffle q)) = mset (S q)"
  by (simp add: shuffle_eq mset_S_whip mset_S_crush)

lemma w_shuffle [simp]: "w (shuffle q) = w q + 6"
  by (simp add: shuffle_eq)

lemma a_shuffle [simp]: "a (shuffle q) = 0"
  by (simp add: shuffle_eq)

lemma z_shuffle [simp]: "z (shuffle q) = z q"
  by (simp add: shuffle_eq)

subsection \<open>absorb\<close>

lemma absorb_nibble_eq:
  "unat x < 128 \<Longrightarrow> absorb_nibble q x = Inr (absorb_nibble_spec q x)"
  by (simp add: absorb_nibble_def absorb_nibble_spec_def swap_cells_def Let_def
      unat_eq_128_iff)

lemma nibble_bound: "unat ((b::u8) AND 0x0F) < 16"
proof -
  have "b AND 15 \<le> 15"
    by (rule word_and_le1)
  then have "unat (b AND 15) \<le> unat (15 :: u8)"
    by (simp only: word_le_nat_alt)
  then show ?thesis by simp
qed

text \<open>
  On an input of at most \<open>INT_MAX\<close> bytes the loop absorbs every byte; on a longer one
  it ends in the overflow of its counter.
\<close>

lemma absorb_loop_eq:
  "length inp \<le> INT_MAX \<Longrightarrow> absorb_loop v q inp = Inr (absorb_spec q (drop v inp))"
proof (induction v q inp rule: absorb_loop.induct)
  case (1 v q inp)
  show ?case
  proof (cases "v < length inp")
    case True
    let ?b = "inp ! v"
    have lo: "absorb_nibble q (LOW ?b) = Inr (absorb_nibble_spec q (?b AND 0x0F))"
      using nibble_bound [of ?b] by (simp add: LOW_def absorb_nibble_eq)
    have hi: "absorb_nibble (absorb_nibble_spec q (?b AND 0x0F)) (HIGH ?b) =
        Inr (absorb_nibble_spec (absorb_nibble_spec q (?b AND 0x0F)) (drop_bit 4 ?b AND 0x0F))"
      using nibble_bound [of "drop_bit 4 ?b"] by (simp add: HIGH_def absorb_nibble_eq)
    have v: "v < INT_MAX"
      using True "1.prems" by simp
    have "drop v inp = ?b # drop (Suc v) inp"
      using True by (simp add: Cons_nth_drop_Suc)
    with True lo hi v "1.IH" [OF True lo hi v "1.prems"] show ?thesis
      by (simp add: absorb_loop.simps [of v q inp])
  next
    case False
    then show ?thesis by (simp add: absorb_loop.simps [of v q inp])
  qed
qed

lemma absorb_loop_overflow:
  "INT_MAX < length inp \<Longrightarrow> v \<le> INT_MAX \<Longrightarrow> absorb_loop v q inp = Inl IntOverflow"
proof (induction v q inp rule: absorb_loop.induct)
  case (1 v q inp)
  let ?b = "inp ! v"
  have True: "v < length inp"
    using "1.prems" by simp
  have lo: "absorb_nibble q (LOW ?b) = Inr (absorb_nibble_spec q (?b AND 0x0F))"
    using nibble_bound [of ?b] by (simp add: LOW_def absorb_nibble_eq)
  have hi: "absorb_nibble (absorb_nibble_spec q (?b AND 0x0F)) (HIGH ?b) =
      Inr (absorb_nibble_spec (absorb_nibble_spec q (?b AND 0x0F)) (drop_bit 4 ?b AND 0x0F))"
    using nibble_bound [of "drop_bit 4 ?b"] by (simp add: HIGH_def absorb_nibble_eq)
  show ?case
  proof (cases "v < INT_MAX")
    case v: True
    then have "v + 1 \<le> INT_MAX" by simp
    with True lo hi v "1.IH" [OF True lo hi v "1.prems"(1)] show ?thesis
      by (simp add: absorb_loop.simps [of v q inp])
  next
    case False
    with True lo hi show ?thesis
      by (simp add: absorb_loop.simps [of v q inp])
  qed
qed

lemma absorb_eq: "length inp \<le> INT_MAX \<Longrightarrow> absorb q inp = Inr (absorb_spec q inp)"
  by (simp add: absorb_def absorb_loop_eq)

lemma absorb_cases:
  "absorb q inp =
     (if length inp \<le> INT_MAX then Inr (absorb_spec q inp) else Inl IntOverflow)"
  by (simp add: absorb_eq) (simp add: absorb_def absorb_loop_overflow)

lemma absorb_single: "absorb q [b] = Inr (absorb_spec q [b])"
  by (rule absorb_eq) (simp add: INT_MAX_def)

subsection \<open>initialise_state\<close>

text \<open>After \<open>n\<close> iterations the first \<open>n\<close> cells hold their own indices.\<close>

lemma initialise_loop:
  "n \<le> length (S q) \<Longrightarrow>
     fold (\<lambda>v q'. q'\<lparr>S := (S q')[v := of_nat v]\<rparr>) [0..<n] q =
       q\<lparr>S := map of_nat [0..<n] @ drop n (S q)\<rparr>"
proof (induction n)
  case 0
  then show ?case by simp
next
  case (Suc n)
  then have "drop n (S q) = S q ! n # drop (Suc n) (S q)"
    by (simp add: Cons_nth_drop_Suc)
  with Suc show ?case
    by (simp add: list_update_append)
qed

lemma initialise_state_eq:
  "length (S q) = N \<Longrightarrow>
     initialise_state q = \<lparr>i = 0, j = 0, k = 0, z = 0, a = 0, w = 1, S = map of_nat [0..<N]\<rparr>"
  by (cases q) (simp add: initialise_state_def initialise_loop del: upt_rec_numeral)

lemma w_initialise_state [simp]: "w (initialise_state q) = 1"
proof -
  have "w (fold (\<lambda>v q'. q'\<lparr>S := (S q')[v := of_nat v]\<rparr>) vs q') = w q'"
    for vs and q' :: minspritz_s
    by (induction vs arbitrary: q') simp_all
  then show ?thesis by (simp add: initialise_state_def del: upt_rec_numeral)
qed

subsection \<open>Permutations of the byte values\<close>

lemma distinct_identity: "distinct (map of_nat [0..<N] :: u8 list)"
proof -
  have "inj_on (of_nat :: nat \<Rightarrow> u8) {0..<N}"
    by (rule inj_on_inverseI [where g = unat]) (simp add: unat_of_nat)
  then show ?thesis by (simp add: distinct_map del: upt_rec_numeral)
qed

lemma is_permutation_identity: "is_permutation (map of_nat [0..<N])"
  by (simp add: is_permutation_def distinct_identity del: upt_rec_numeral)

lemma is_permutation_mset:
  "is_permutation xs \<Longrightarrow> mset ys = mset xs \<Longrightarrow> is_permutation ys"
  unfolding is_permutation_def
  using mset_eq_length [of ys xs] mset_eq_imp_distinct_iff [of ys xs] by simp

text \<open>In a permutation every byte value occurs, and occurs once.\<close>

lemma is_permutation_set: "is_permutation xs \<Longrightarrow> set xs = UNIV"
proof -
  assume "is_permutation xs"
  then have "card (set xs) = card (UNIV :: u8 set)"
    by (simp add: is_permutation_def distinct_card card_word)
  then show ?thesis
    by (intro card_subset_eq) simp_all
qed

lemma is_permutation_count: "is_permutation xs \<Longrightarrow> count_list xs b = 1"
proof -
  assume p: "is_permutation xs"
  then have "b \<in> set xs" by (simp add: is_permutation_set)
  moreover from p have "distinct xs" by (simp add: is_permutation_def)
  ultimately show ?thesis
    by (metis count_mset distinct_count_atmost_1)
qed

lemma is_permutation_bij:
  assumes "is_permutation xs"
  shows "bij_betw (\<lambda>v. unat (xs ! v)) {0..<N} {0..<N}"
proof -
  have "bij_betw ((!) xs) {..<length xs} (set xs)"
    using assms by (intro bij_betw_nth) (simp_all add: is_permutation_def)
  then have 1: "bij_betw ((!) xs) {0..<N} UNIV"
    using assms by (simp add: is_permutation_set is_permutation_def lessThan_atLeast0)
  have "bij_betw (unat :: u8 \<Rightarrow> nat) UNIV {0..<N}"
  proof (rule bij_betw_byWitness [where f' = of_nat])
    show "\<forall>x\<in>UNIV. word_of_nat (unat (x::u8)) = x" by simp
    show "\<forall>n\<in>{0..<N}. unat (word_of_nat n :: u8) = n" by (simp add: unat_of_nat)
    show "(unat :: u8 \<Rightarrow> nat) ` UNIV \<subseteq> {0..<N}" by auto
    show "(word_of_nat :: nat \<Rightarrow> u8) ` {0..<N} \<subseteq> UNIV" by simp
  qed
  with 1 have "bij_betw (unat \<circ> (!) xs) {0..<N} {0..<N}"
    by (rule bij_betw_trans)
  then show ?thesis by (simp add: comp_def)
qed

subsection \<open>Parity of a byte\<close>

lemma odd_unat_add_2: "odd (unat (x + 2 :: u8)) \<longleftrightarrow> odd (unat x)"
proof -
  have "unat (x + 2) = (unat x + 2) mod 256"
    by (simp add: unat_word_ariths del: unat_add_mod_N)
  then show ?thesis by (simp add: dvd_mod_iff)
qed

lemma odd_unat_add_6: "odd (unat (x + 6 :: u8)) \<longleftrightarrow> odd (unat x)"
proof -
  have "unat (x + 6) = (unat x + 6) mod 256"
    by (simp add: unat_word_ariths del: unat_add_mod_N)
  then show ?thesis by (simp add: dvd_mod_iff)
qed

subsection \<open>Invariants of the state\<close>


lemma output_fields [simp]:
  "i (snd (output q)) = i q" "j (snd (output q)) = j q" "k (snd (output q)) = k q"
  "a (snd (output q)) = a q" "w (snd (output q)) = w q" "S (snd (output q)) = S q"
  by (simp_all add: output_def Let_def)

lemma S_absorb_stop: "S (absorb_stop q) = S (if a q = 128 then shuffle q else q)"
  by (simp add: absorb_stop_def Let_def unat_eq_128_iff)

lemma w_absorb_stop: "w (absorb_stop q) = w (if a q = 128 then shuffle q else q)"
  by (simp add: absorb_stop_def Let_def unat_eq_128_iff)

lemma mset_S_absorb_stop: "length (S q) = N \<Longrightarrow> mset (S (absorb_stop q)) = mset (S q)"
  by (simp add: S_absorb_stop mset_S_shuffle)

lemma w_absorb_nibble_spec:
  "w (absorb_nibble_spec q x) = w (if a q = 128 then shuffle q else q)"
  by (simp add: absorb_nibble_spec_def Let_def)

lemma mset_S_absorb_nibble_spec:
  "length (S q) = N \<Longrightarrow> unat x < 128 \<Longrightarrow> mset (S (absorb_nibble_spec q x)) = mset (S q)"
  by (simp add: absorb_nibble_spec_def Let_def swap_cells_def mset_swap mset_S_shuffle)

lemma absorb_nibble_cases:
  "absorb_nibble q x = (if unat x < 128 then Inr (absorb_nibble_spec q x) else Inl OutOfBounds)"
  by (simp add: absorb_nibble_eq) (simp add: absorb_nibble_def Let_def)

lemma mset_S_absorb_spec:
  "length (S q) = N \<Longrightarrow> mset (S (absorb_spec q inp)) = mset (S q)"
proof (induction inp arbitrary: q)
  case Nil
  then show ?case by simp
next
  case (Cons b bs)
  have lo: "unat (b AND 0x0F) < 128" and hi: "unat (drop_bit 4 b AND 0x0F) < 128"
    using nibble_bound [of b] nibble_bound [of "drop_bit 4 b"] by simp_all
  let ?q1 = "absorb_nibble_spec q (b AND 0x0F)"
  let ?q2 = "absorb_nibble_spec ?q1 (drop_bit 4 b AND 0x0F)"
  have 1: "mset (S ?q1) = mset (S q)"
    using Cons.prems lo by (rule mset_S_absorb_nibble_spec)
  then have len1: "length (S ?q1) = N"
    using Cons.prems mset_eq_length by fastforce
  have 2: "mset (S ?q2) = mset (S ?q1)"
    using len1 hi by (rule mset_S_absorb_nibble_spec)
  then have len2: "length (S ?q2) = N"
    using len1 mset_eq_length by fastforce
  from Cons.IH [OF len2] 1 2 show ?case by simp
qed

lemma odd_w_absorb_nibble_spec:
  "odd (unat (w q)) \<Longrightarrow> odd (unat (w (absorb_nibble_spec q x)))"
  by (simp add: w_absorb_nibble_spec odd_unat_add_6)

lemma odd_w_absorb_spec: "odd (unat (w q)) \<Longrightarrow> odd (unat (w (absorb_spec q inp)))"
  by (induction inp arbitrary: q) (simp_all add: odd_w_absorb_nibble_spec)

lemma drip_eq: "drip q = output (update (if a q = 0 then q else shuffle q))"
  by (simp add: drip_def Let_def unat_gt_0)

lemma mset_S_drip: "length (S q) = N \<Longrightarrow> mset (S (snd (drip q))) = mset (S q)"
  by (simp add: drip_eq mset_S_update mset_S_shuffle)

lemma w_drip: "w (snd (drip q)) = w (if a q = 0 then q else shuffle q)"
  by (simp add: drip_eq)

lemma a_drip [simp]: "a (snd (drip q)) = 0"
  by (simp add: drip_eq)

text \<open>A property that \<^verbatim>\<open>drip\<close> preserves holds after the loop of \<^verbatim>\<open>squeeze\<close>.\<close>

lemma squeeze_loop_invariant:
  assumes step: "\<And>q. P q \<Longrightarrow> P (snd (drip q))"
  shows "P q \<Longrightarrow> squeeze_loop v r q p = Inr (p', q') \<Longrightarrow> P q'"
proof (induction v r q p rule: squeeze_loop.induct)
  case (1 v r q p)
  show ?case
  proof (cases "v < r")
    case True
    obtain b q1 where d: "drip q = (b, q1)" by (cases "drip q")
    with step [OF "1.prems"(1)] have P1: "P q1" by simp
    from "1.prems"(2) True d have inb: "nat v < length p"
      and rec: "squeeze_loop (v + 1) r q1 (p[nat v := b]) = Inr (p', q')"
      by (simp_all add: squeeze_loop.simps [of v r q p] split: if_splits)
    from "1.IH" [OF True d [symmetric] refl inb P1 rec] show ?thesis .
  next
    case False
    with "1.prems" show ?thesis by (simp add: squeeze_loop.simps [of v r q p])
  qed
qed

lemma squeeze_invariant:
  assumes step: "\<And>q. P q \<Longrightarrow> P (snd (drip q))"
    and pre: "P (if a q = 0 then q else shuffle q)"
    and res: "squeeze q r mem = Inr (out, q')"
  shows "P q'"
proof (cases mem)
  case None
  with res pre show ?thesis
    by (simp add: squeeze_def Let_def unat_gt_0 split: if_splits prod.splits)
next
  case (Some p)
  with res obtain p' where
    "squeeze_loop 0 r (if a q = 0 then q else shuffle q) p = Inr (p', q')"
    by (auto simp: squeeze_def Let_def unat_gt_0 split: if_splits sum.splits)
  with step pre show ?thesis by (rule squeeze_loop_invariant)
qed

lemma is_permutation_length: "is_permutation xs \<Longrightarrow> length xs = N"
  by (simp add: is_permutation_def)

lemma even_unat_add_2: "even (unat (x + 2 :: u8)) \<longleftrightarrow> even (unat x)"
  using odd_unat_add_2 [of x] by simp

lemma even_unat_add_6: "even (unat (x + 6 :: u8)) \<longleftrightarrow> even (unat x)"
  using odd_unat_add_6 [of x] by simp

lemma is_permutation_drip:
  assumes "is_permutation (S q)"
  shows "is_permutation (S (snd (drip q)))"
  using assms by (rule is_permutation_mset) (simp add: mset_S_drip is_permutation_length assms)

lemma call_result_permutation:
  assumes "is_permutation (S q)" "call_result c q = Inr q'"
  shows "is_permutation (S q')"
proof -
  note len = is_permutation_length [OF assms(1)]
  show ?thesis
  proof (cases c)
    case Update
    with assms len show ?thesis by (auto intro: is_permutation_mset simp: mset_S_update)
  next
    case Output
    with assms show ?thesis by auto
  next
    case Crush
    with assms len show ?thesis by (auto intro: is_permutation_mset simp: mset_S_crush)
  next
    case (Whip r)
    with assms len show ?thesis by (auto intro: is_permutation_mset simp: mset_S_whip)
  next
    case Shuffle
    with assms len show ?thesis by (auto intro: is_permutation_mset simp: mset_S_shuffle)
  next
    case (Absorb_nibble x)
    with assms len show ?thesis
      by (auto intro: is_permutation_mset
          simp: absorb_nibble_cases mset_S_absorb_nibble_spec split: if_splits)
  next
    case Absorb_stop
    with assms len show ?thesis by (auto intro: is_permutation_mset simp: mset_S_absorb_stop)
  next
    case (Absorb inp)
    with assms len show ?thesis
      by (auto intro: is_permutation_mset simp: absorb_cases mset_S_absorb_spec
          split: if_splits)
  next
    case Drip
    with assms show ?thesis by (auto intro: is_permutation_drip)
  next
    case (Squeeze r mem)
    with assms obtain out where sq: "squeeze q r mem = Inr (out, q')"
      by (cases "squeeze q r mem") auto
    have "is_permutation (S (if a q = 0 then q else shuffle q))"
      using assms(1) len by (auto intro: is_permutation_mset simp: mset_S_shuffle)
    with is_permutation_drip show ?thesis
      using sq by (rule squeeze_invariant [where P = "\<lambda>q. is_permutation (S q)"])
  qed
qed

lemma calls_permutation:
  "is_permutation (S q) \<Longrightarrow> calls cs q = Inr q' \<Longrightarrow> is_permutation (S q')"
proof (induction cs arbitrary: q)
  case Nil
  then show ?case by simp
next
  case (Cons c cs)
  then show ?case
    by (auto split: sum.splits dest: call_result_permutation)
qed

lemma is_permutation_initialise_state:
  "length (S q0) = N \<Longrightarrow> is_permutation (S (initialise_state q0))"
  by (simp add: initialise_state_eq is_permutation_identity del: upt_rec_numeral)

lemma odd_w_drip: "odd (unat (w q)) \<Longrightarrow> odd (unat (w (snd (drip q))))"
  by (simp add: w_drip even_unat_add_6)

lemma call_result_odd_w:
  assumes "odd (unat (w q))" "call_result c q = Inr q'"
  shows "odd (unat (w q'))"
proof (cases c)
  case (Absorb_nibble x)
  with assms show ?thesis
    by (auto simp: absorb_nibble_cases odd_w_absorb_nibble_spec split: if_splits)
next
  case (Absorb inp)
  with assms show ?thesis
    by (auto simp: absorb_cases odd_w_absorb_spec split: if_splits)
next
  case (Squeeze r mem)
  with assms obtain out where sq: "squeeze q r mem = Inr (out, q')"
    by (cases "squeeze q r mem") auto
  have "odd (unat (w (if a q = 0 then q else shuffle q)))"
    using assms(1) by (simp add: even_unat_add_6)
  with odd_w_drip show ?thesis
    using sq by (rule squeeze_invariant [where P = "\<lambda>q. odd (unat (w q))"])
qed (use assms in \<open>auto simp: even_unat_add_2 even_unat_add_6 w_absorb_stop odd_w_drip
      split: if_splits\<close>)

lemma calls_odd_w: "odd (unat (w q)) \<Longrightarrow> calls cs q = Inr q' \<Longrightarrow> odd (unat (w q'))"
proof (induction cs arbitrary: q)
  case Nil
  then show ?case by simp
next
  case (Cons c cs)
  then show ?case
    by (auto split: sum.splits dest: call_result_odd_w)
qed

subsection \<open>squeeze and the entry points\<close>

lemma length_drips [simp]: "length (fst (drips n q)) = n"
  by (induction n arbitrary: q) (simp_all add: Let_def split_def)

text \<open>
  From counter \<open>v\<close>, the loop of \<^verbatim>\<open>squeeze\<close> keeps the first \<open>v\<close> bytes of the buffer and
  fills the rest with the bytes of \<open>r - v\<close> calls of \<^verbatim>\<open>drip\<close>.
\<close>

lemma squeeze_loop_eq:
  "0 \<le> v \<Longrightarrow> v \<le> r \<Longrightarrow> length p = nat r \<Longrightarrow>
     squeeze_loop v r q p =
       Inr (take (nat v) p @ fst (drips (nat (r - v)) q), snd (drips (nat (r - v)) q))"
proof (induction v r q p rule: squeeze_loop.induct)
  case (1 v r q p)
  show ?case
  proof (cases "v < r")
    case True
    obtain b q1 where d: "drip q = (b, q1)" by (cases "drip q")
    from True "1.prems" have inb: "nat v < length p" by simp
    from True "1.prems" have n: "nat (r - v) = Suc (nat (r - (v + 1)))"
      and v1: "nat (v + 1) = Suc (nat v)" by simp_all
    have "squeeze_loop (v + 1) r q1 (p[nat v := b]) =
        Inr (take (nat (v + 1)) (p[nat v := b]) @ fst (drips (nat (r - (v + 1))) q1),
             snd (drips (nat (r - (v + 1))) q1))"
      using "1.IH" [OF True d [symmetric] refl inb] True "1.prems" by simp
    moreover have "take (nat (v + 1)) (p[nat v := b]) = take (nat v) p @ [b]"
      using inb by (simp add: v1 take_Suc_conv_app_nth)
    ultimately show ?thesis
      using True d inb n
      by (simp add: squeeze_loop.simps [of v r q p] Let_def split: prod.splits)
  next
    case False
    with "1.prems" have "v = r" by simp
    with "1.prems" show ?thesis by (subst squeeze_loop.simps) simp
  qed
qed

lemma squeeze_Some:
  assumes "length p = nat r"
  shows "squeeze q r (Some p) =
           Inr (Some (fst (drips (nat r) (if a q = 0 then q else shuffle q))),
                snd (drips (nat r) (if a q = 0 then q else shuffle q)))"
proof (cases "0 \<le> r")
  case True
  with assms show ?thesis
    by (simp add: squeeze_def Let_def unat_gt_0 squeeze_loop_eq split_def)
next
  case False
  with assms show ?thesis
    by (simp add: squeeze_def Let_def unat_gt_0 squeeze_loop.simps [of 0 r])
qed

lemma squeeze_None:
  "squeeze q r None =
     (if 0 < r then Inl NullWrite else Inr (None, if a q = 0 then q else shuffle q))"
  by (simp add: squeeze_def Let_def unat_gt_0 split: prod.splits)


lemma stream_eq:
  assumes "length (S q0) = N" "length p = 32" "length m \<le> INT_MAX"
  shows "minminspritz_stream q0 m (Some p) =
     Inr (Some (fst (drips 32
       (pending (absorb_spec
          \<lparr>i = 0, j = 0, k = 0, z = 0, a = 0, w = 1, S = map of_nat [0..<N]\<rparr> m)))))"
proof -
  have "length p = nat 32" using assms(2) by simp
  then show ?thesis
    unfolding minminspritz_stream_def initialise_state_eq [OF assms(1)] pending_def
    by (simp add: Let_def absorb_eq [OF assms(3)] squeeze_Some
        del: upt_rec_numeral absorb_spec.simps)
qed


lemma stream_squeeze:
  "length key \<le> INT_MAX \<Longrightarrow>
     minminspritz_stream q0 key mem =
       map_sum id fst (squeeze (absorb_spec (initialise_state q0) key) 32 mem)"
  by (simp add: minminspritz_stream_def Let_def absorb_eq)

text \<open>
  The state that \<^verbatim>\<open>squeeze\<close> leaves is the state after the pending shuffle and \<open>r\<close>
  rounds of \<^verbatim>\<open>update\<close> and \<^verbatim>\<open>output\<close>.
\<close>

lemma squeeze_loop_state:
  "squeeze_loop v r q p = Inr (p', q') \<Longrightarrow> q' = snd (drips (nat (r - v)) q)"
proof (induction v r q p rule: squeeze_loop.induct)
  case (1 v r q p)
  show ?case
  proof (cases "v < r")
    case True
    obtain b q1 where d: "drip q = (b, q1)" by (cases "drip q")
    from "1.prems" True d have inb: "nat v < length p"
      and rec: "squeeze_loop (v + 1) r q1 (p[nat v := b]) = Inr (p', q')"
      by (simp_all add: squeeze_loop.simps [of v r q p] split: if_splits)
    from True have n: "nat (r - v) = Suc (nat (r - (v + 1)))" by simp
    from "1.IH" [OF True d [symmetric] refl inb rec] d show ?thesis
      by (simp add: n split_def Let_def)
  next
    case False
    with "1.prems" show ?thesis by (simp add: squeeze_loop.simps [of v r q p])
  qed
qed

lemma a_pending [simp]: "a (pending q) = 0"
  by (simp add: pending_def)

lemma pending_idle: "a q = 0 \<Longrightarrow> pending q = q"
  by (simp add: pending_def)

lemma drip_pending: "drip q = output (update (pending q))"
  by (simp add: drip_eq pending_def)

lemma drips_funpow:
  "a q = 0 \<Longrightarrow> snd (drips n q) = ((\<lambda>s. snd (output (update s))) ^^ n) q"
proof (induction n arbitrary: q)
  case 0
  then show ?case by simp
next
  case (Suc n)
  let ?f = "\<lambda>s. snd (output (update s))"
  have "a (?f q) = 0" using Suc.prems by simp
  then have "snd (drips n (?f q)) = (?f ^^ n) (?f q)"
    by (rule Suc.IH)
  moreover have "snd (drips (Suc n) q) = snd (drips n (?f q))"
    using Suc.prems by (simp add: drip_pending pending_idle split_def Let_def)
  moreover have "(?f ^^ Suc n) q = (?f ^^ n) (?f q)"
    by (simp only: funpow_Suc_right o_apply)
  ultimately show ?case by simp
qed

lemma squeeze_state:
  assumes "squeeze q r mem = Inr (out, q')"
  shows "q' = ((\<lambda>s. snd (output (update s))) ^^ nat r) (pending q)"
proof (cases mem)
  case None
  with assms show ?thesis
    by (simp add: squeeze_None pending_def split: if_splits)
next
  case (Some p)
  with assms obtain p' where
    "squeeze_loop 0 r (pending q) p = Inr (p', q')"
    by (auto simp: squeeze_def Let_def unat_gt_0 pending_def split: if_splits sum.splits)
  then have "q' = snd (drips (nat r) (pending q))"
    using squeeze_loop_state [of 0 r "pending q" p p' q'] by simp
  then show ?thesis by (simp add: drips_funpow)
qed

lemma squeeze_state_sum:
  "map_sum id (\<lambda>res. f (snd res)) (squeeze q r mem) =
     map_sum id (\<lambda>_. f (((\<lambda>s. snd (output (update s))) ^^ nat r) (pending q)))
       (squeeze q r mem)"
proof (cases "squeeze q r mem")
  case (Inl e)
  then show ?thesis by simp
next
  case (Inr res)
  then have "squeeze q r mem = Inr (fst res, snd res)" by simp
  from squeeze_state [OF this] Inr show ?thesis by simp
qed

lemma w_rounds [simp]: "w (((\<lambda>s. snd (output (update s))) ^^ n) q) = w q"
  by (induction n) simp_all

lemma absorb_state_sum:
  "map_sum id f (absorb q inp) = map_sum id (\<lambda>_. f (absorb_spec q inp)) (absorb q inp)"
  by (simp add: absorb_cases)

subsection \<open>The cursor triple\<close>

lemma cursor_simps [simp]:
  "cursor (q\<lparr>w := x\<rparr>) = cursor q" "cursor (q\<lparr>a := x\<rparr>) = cursor q"
  "cursor (q\<lparr>z := x\<rparr>) = cursor q" "cursor (q\<lparr>S := xs\<rparr>) = cursor q"
  by (simp_all add: cursor_def)

lemma cursor_crush [simp]: "cursor (crush q) = cursor q"
  by (simp add: cursor_def)

section \<open>The step function and the output function\<close>

text \<open>
  Claim C1. One call of \<^verbatim>\<open>update\<close> is one step: \<open>i\<close> becomes \<open>i + w\<close>, then \<open>j\<close>
  becomes \<open>k + S[(j + S[i]) mod 256]\<close>, then \<open>k\<close> becomes \<open>i + k + S[j mod 256]\<close>, then
  \<open>S[i mod 256]\<close> and \<open>S[j mod 256]\<close> are swapped, all sums wrapping modulo 256; the
  swap is the only change of \<open>S\<close>. No other operation assigns to \<open>i\<close>, \<open>j\<close> or \<open>k\<close>:
  \<^verbatim>\<open>crush\<close> and \<^verbatim>\<open>output\<close> leave the triple as it is, and the triple after \<^verbatim>\<open>whip\<close>,
  \<^verbatim>\<open>shuffle\<close>, \<^verbatim>\<open>absorb_stop\<close>, \<^verbatim>\<open>absorb_nibble\<close> and \<^verbatim>\<open>drip\<close> is the one their
  calls of \<^verbatim>\<open>update\<close> leave. The triple after \<^verbatim>\<open>absorb\<close> is the one its calls of
  \<^verbatim>\<open>absorb_nibble\<close> leave, nibble by nibble, and the triple after \<^verbatim>\<open>squeeze(n)\<close> is the
  one left by the pending shuffle and \<open>n\<close> rounds of \<^verbatim>\<open>update\<close> and \<^verbatim>\<open>output\<close>.
\<close>

theorem update_step:
  "update q =
     q\<lparr>i := i q + w q,
       j := k q + S q ! unat (j q + S q ! unat (i q + w q)),
       k := i q + w q + k q + S q ! unat (k q + S q ! unat (j q + S q ! unat (i q + w q))),
       S := swap_cells (S q) (unat (i q + w q))
              (unat (k q + S q ! unat (j q + S q ! unat (i q + w q))))\<rparr>
   \<and> unat (i (update q)) = (unat (i q) + unat (w q)) mod 256
   \<and> unat (j (update q)) =
       (unat (k q) +
        unat (S q ! ((unat (j q) + unat (S q ! unat (i (update q)))) mod 256))) mod 256
   \<and> unat (k (update q)) =
       (unat (i (update q)) + unat (k q) + unat (S q ! (unat (j (update q)) mod 256))) mod 256
   \<and> S (update q) =
       swap_cells (S q) (unat (i (update q)) mod 256) (unat (j (update q)) mod 256)
   \<and> cursor (crush q) = cursor q
   \<and> cursor (snd (output q)) = cursor q
   \<and> cursor (whip q r) = cursor ((update ^^ nat r) q)
   \<and> cursor (shuffle q) = cursor (whip (crush (whip (crush (whip q 512)) 512)) 512)
   \<and> cursor (absorb_stop q) = cursor (if a q = 128 then shuffle q else q)
   \<and> map_sum id cursor (absorb_nibble q x) =
       map_sum id (\<lambda>_. cursor (if a q = 128 then shuffle q else q)) (absorb_nibble q x)
   \<and> cursor (snd (drip q)) = cursor (update (if a q = 0 then q else shuffle q))
   \<and> map_sum id cursor (absorb q inp) =
       map_sum id (\<lambda>_. cursor (absorb_spec q inp)) (absorb q inp)
   \<and> absorb_spec q [] = q
   \<and> absorb_spec q (b # bs) =
       absorb_spec
         (absorb_nibble_spec (absorb_nibble_spec q (b AND 0x0F)) (drop_bit 4 b AND 0x0F)) bs
   \<and> cursor (absorb_nibble_spec q x) = cursor (if a q = 128 then shuffle q else q)
   \<and> map_sum id (\<lambda>res. cursor (snd res)) (squeeze q n mem) =
       map_sum id
         (\<lambda>_. cursor (((\<lambda>s. snd (output (update s))) ^^ nat n)
                (if a q = 0 then q else shuffle q)))
         (squeeze q n mem)"
  apply (intro conjI)
  subgoal by (simp add: update_eq swap_cells_def)
  subgoal by (simp add: update_eq)
  subgoal by (simp add: update_eq)
  subgoal by (simp add: update_eq)
  subgoal by (simp add: update_eq swap_cells_def)
  subgoal by simp
  subgoal by (simp add: output_def Let_def)
  subgoal by (simp add: whip_eq)
  subgoal by (simp add: shuffle_eq)
  subgoal by (simp add: absorb_stop_def Let_def unat_eq_128_iff)
  subgoal by (simp add: absorb_nibble_def Let_def unat_eq_128_iff)
  subgoal by (simp add: drip_def output_def Let_def unat_gt_0)
  subgoal by (rule absorb_state_sum)
  subgoal by simp
  subgoal by simp
  subgoal by (simp add: absorb_nibble_spec_def Let_def)
  subgoal using squeeze_state_sum [of cursor q n mem] by (simp add: pending_def)
  done

text \<open>
  Claim C8. One call of \<^verbatim>\<open>output\<close> changes \<open>z\<close> only: \<open>i\<close>, \<open>j\<close>, \<open>k\<close>, \<open>a\<close>, \<open>w\<close>
  and \<open>S\<close> stay as they are. The byte returned is the new \<open>z\<close>, which is
  \<open>S[(j + S[(i + S[(z + k) mod 256]) mod 256]) mod 256]\<close>, the three lookups nested in
  this order.
\<close>

theorem output_frame:
  "output q =
     (S q ! unat (j q + S q ! unat (i q + S q ! unat (z q + k q))),
      q\<lparr>z := S q ! unat (j q + S q ! unat (i q + S q ! unat (z q + k q)))\<rparr>)
   \<and> fst (output q) = z (snd (output q))
   \<and> z (snd (output q)) =
       S q ! ((unat (j q) + unat (S q ! ((unat (i q) + unat (S q !
         ((unat (z q) + unat (k q)) mod 256))) mod 256))) mod 256)
   \<and> i (snd (output q)) = i q \<and> j (snd (output q)) = j q \<and> k (snd (output q)) = k q
   \<and> a (snd (output q)) = a q \<and> w (snd (output q)) = w q \<and> S (snd (output q)) = S q"
  by (simp add: output_def Let_def)

section \<open>The mixing rounds\<close>

text \<open>
  Claim C4. One call of \<^verbatim>\<open>shuffle\<close> is \<^verbatim>\<open>whip(512); crush(); whip(512); crush();
  whip(512)\<close> in this order, and then sets \<open>a\<close> to 0. Each \<^verbatim>\<open>whip(512)\<close> is 512 steps
  of \<^verbatim>\<open>update\<close> followed by the increment of \<open>w\<close> by 2.
\<close>

theorem shuffle_sequence:
  "shuffle q = (whip (crush (whip (crush (whip q 512)) 512)) 512)\<lparr>a := 0\<rparr>
   \<and> whip q 512 = ((update ^^ 512) q)\<lparr>w := w q + 2\<rparr>
   \<and> a (shuffle q) = 0"
  by (simp add: shuffle_eq whip_eq)

section \<open>Absorption\<close>



section \<open>Invariants over all sequences of calls\<close>

text \<open>
  Claim C2. In every state reached from \<^verbatim>\<open>initialise_state\<close> by a finite sequence of
  calls of \<^verbatim>\<open>update\<close>, \<^verbatim>\<open>crush\<close>, \<^verbatim>\<open>absorb_nibble\<close>, \<^verbatim>\<open>absorb\<close>, \<^verbatim>\<open>absorb_stop\<close>,
  \<^verbatim>\<open>whip\<close>, \<^verbatim>\<open>shuffle\<close>, \<^verbatim>\<open>drip\<close> and \<^verbatim>\<open>squeeze\<close> (and \<^verbatim>\<open>output\<close>), \<open>S\<close> is a
  bijection on 0..255: it has 256 cells and every byte value occurs in it exactly once.
  In particular this holds right after a further call of \<^verbatim>\<open>update\<close>, \<^verbatim>\<open>crush\<close>,
  \<^verbatim>\<open>shuffle\<close> or \<^verbatim>\<open>absorb_nibble\<close>.
\<close>

theorem permutation_invariant:
  assumes "length (S q0) = N" "calls cs (initialise_state q0) = Inr q"
  shows "is_permutation (S q)
     \<and> length (S q) = 256
     \<and> (\<forall>b. count_list (S q) b = 1)
     \<and> bij_betw (\<lambda>v. unat (S q ! v)) {0..<256} {0..<256}
     \<and> is_permutation (S (update q))
     \<and> is_permutation (S (crush q))
     \<and> is_permutation (S (shuffle q))
     \<and> (\<forall>x q'. absorb_nibble q x = Inr q' \<longrightarrow> is_permutation (S q'))"
proof -
  have p: "is_permutation (S q)"
    using is_permutation_initialise_state [OF assms(1)] assms(2) by (rule calls_permutation)
  have "is_permutation (S q')" if "call_result c q = Inr q'" for c q'
    using p that by (rule call_result_permutation)
  from this [of Update] this [of Crush] this [of Shuffle] this [of "Absorb_nibble _"]
  have "is_permutation (S (update q))" "is_permutation (S (crush q))"
    "is_permutation (S (shuffle q))"
    "\<forall>x q'. absorb_nibble q x = Inr q' \<longrightarrow> is_permutation (S q')"
    by simp_all
  with p show ?thesis
    by (simp add: is_permutation_length is_permutation_count is_permutation_bij)
qed

theorem permutation_invariant_witness:
  "length (S \<lparr>i = 5, j = 6, k = 7, z = 8, a = 9, w = 10, S = replicate 256 0xAA\<rparr>) = N
   \<and> calls [Absorb_nibble 3, Update, Crush, Whip 3, Absorb_stop, Drip]
        (initialise_state \<lparr>i = 5, j = 6, k = 7, z = 8, a = 9, w = 10, S = replicate 256 0xAA\<rparr>)
      = Inr (snd (drip (absorb_stop (whip (crush (update (absorb_nibble_spec
          (initialise_state \<lparr>i = 5, j = 6, k = 7, z = 8, a = 9, w = 10, S = replicate 256 0xAA\<rparr>)
          3))) 3))))
   \<and> count_list (S (snd (drip (absorb_stop (whip (crush (update (absorb_nibble_spec
          (initialise_state \<lparr>i = 5, j = 6, k = 7, z = 8, a = 9, w = 10, S = replicate 256 0xAA\<rparr>)
          3))) 3))))) 7 = 1"
proof -
  let ?g = "\<lparr>i = 5, j = 6, k = 7, z = 8, a = 9, w = 10, S = replicate 256 0xAA\<rparr>"
  let ?q = "snd (drip (absorb_stop (whip (crush (update (absorb_nibble_spec
          (initialise_state ?g) 3))) 3)))"
  have len: "length (S ?g) = N" by simp
  have run: "calls [Absorb_nibble 3, Update, Crush, Whip 3, Absorb_stop, Drip]
        (initialise_state ?g) = Inr ?q"
    by (simp add: absorb_nibble_cases)
  from permutation_invariant [OF len run] have "\<forall>b. count_list (S ?q) b = 1"
    by (elim conjE)
  then have "count_list (S ?q) 7 = 1" ..
  with len run show ?thesis by (intro conjI)
qed

text \<open>
  Claim C5. \<open>w\<close> is odd in every state reached from \<^verbatim>\<open>initialise_state\<close> by a finite
  sequence of calls: \<^verbatim>\<open>initialise_state\<close> sets \<open>w\<close> to 1, \<^verbatim>\<open>whip(r)\<close> calls
  \<^verbatim>\<open>update\<close> \<open>r\<close> times and then adds 2 to \<open>w\<close> modulo 256, which keeps it odd, and no
  other operation assigns to \<open>w\<close>: \<^verbatim>\<open>update\<close>, \<^verbatim>\<open>output\<close> and \<^verbatim>\<open>crush\<close> leave it as
  it is, and the others change it only through the calls of \<^verbatim>\<open>whip\<close> in \<^verbatim>\<open>shuffle\<close>:
  \<^verbatim>\<open>absorb_stop\<close>, \<^verbatim>\<open>absorb_nibble\<close> and, nibble by nibble, \<^verbatim>\<open>absorb\<close> through the
  shuffle at \<open>a = 128\<close>, \<^verbatim>\<open>drip\<close> and \<^verbatim>\<open>squeeze\<close> through the pending shuffle.
\<close>

theorem odd_w_invariant:
  assumes "calls cs (initialise_state q0) = Inr q"
  shows "odd (unat (w q))
     \<and> w (initialise_state q0) = 1
     \<and> whip q r = ((update ^^ nat r) q)\<lparr>w := w q + 2\<rparr>
     \<and> unat (w (whip q r)) = (unat (w q) + 2) mod 256
     \<and> odd (unat (w (whip q r)))
     \<and> w (update q) = w q
     \<and> w (snd (output q)) = w q
     \<and> w (crush q) = w q
     \<and> w (shuffle q) = w (whip (whip (whip q 512) 512) 512)
     \<and> w (absorb_stop q) = w (if a q = 128 then shuffle q else q)
     \<and> map_sum id w (absorb_nibble q x) =
         map_sum id (\<lambda>_. w (if a q = 128 then shuffle q else q)) (absorb_nibble q x)
     \<and> w (snd (drip q)) = w (if a q = 0 then q else shuffle q)
     \<and> map_sum id w (absorb q inp) = map_sum id (\<lambda>_. w (absorb_spec q inp)) (absorb q inp)
     \<and> absorb_spec q [] = q
     \<and> absorb_spec q (b # bs) =
         absorb_spec
           (absorb_nibble_spec (absorb_nibble_spec q (b AND 0x0F)) (drop_bit 4 b AND 0x0F)) bs
     \<and> w (absorb_nibble_spec q x) = w (if a q = 128 then shuffle q else q)
     \<and> map_sum id (\<lambda>res. w (snd res)) (squeeze q n mem) =
         map_sum id (\<lambda>_. w (if a q = 0 then q else shuffle q)) (squeeze q n mem)"
proof -
  have "odd (unat (w (initialise_state q0)))" by simp
  then have o: "odd (unat (w q))"
    using assms by (rule calls_odd_w)
  have u: "unat (w q + 2) = (unat (w q) + 2) mod 256"
    by (simp add: unat_word_ariths del: unat_add_mod_N)
  have n: "map_sum id w (absorb_nibble q x) =
         map_sum id (\<lambda>_. w (if a q = 128 then shuffle q else q)) (absorb_nibble q x)"
    by (simp add: absorb_nibble_cases w_absorb_nibble_spec)
  have "odd (unat (w (whip q r)))"
    using o by (simp add: even_unat_add_2)
  moreover have "map_sum id w (absorb q inp) =
      map_sum id (\<lambda>_. w (absorb_spec q inp)) (absorb q inp)"
    by (rule absorb_state_sum)
  moreover have "map_sum id (\<lambda>res. w (snd res)) (squeeze q n mem) =
      map_sum id (\<lambda>_. w (if a q = 0 then q else shuffle q)) (squeeze q n mem)"
    using squeeze_state_sum [of w q n mem] by (simp add: pending_def)
  ultimately show ?thesis
    using o n u by (simp add: whip_eq w_absorb_stop w_drip w_absorb_nibble_spec)
qed

theorem odd_w_invariant_witness:
  "calls [Whip 2, Shuffle, Absorb [0x41], Absorb_stop]
        (initialise_state \<lparr>i = 5, j = 6, k = 7, z = 8, a = 9, w = 10, S = replicate 256 0xAA\<rparr>)
      = Inr (absorb_stop (absorb_spec (shuffle (whip
          (initialise_state \<lparr>i = 5, j = 6, k = 7, z = 8, a = 9, w = 10, S = replicate 256 0xAA\<rparr>)
          2)) [0x41]))
   \<and> odd (unat (w (absorb_stop (absorb_spec (shuffle (whip
          (initialise_state \<lparr>i = 5, j = 6, k = 7, z = 8, a = 9, w = 10, S = replicate 256 0xAA\<rparr>)
          2)) [0x41]))))"
proof -
  let ?g = "\<lparr>i = 5, j = 6, k = 7, z = 8, a = 9, w = 10, S = replicate 256 0xAA\<rparr>"
  let ?q = "absorb_stop (absorb_spec (shuffle (whip (initialise_state ?g) 2)) [0x41])"
  have run: "calls [Whip 2, Shuffle, Absorb [0x41], Absorb_stop] (initialise_state ?g) = Inr ?q"
    by (simp add: absorb_single)
  have "odd (unat (w ?q))"
    by (rule odd_w_invariant [OF run, THEN conjunct1])
  with run show ?thesis by (intro conjI)
qed

section \<open>Extraction and the entry points\<close>



text \<open>
  Claim C6, as the code has it. \<^verbatim>\<open>minminspritz_stream\<close> takes a key and no length: it
  initialises the state, absorbs the key and squeezes 32 bytes, whatever the outcome of
  the allocation, so with a successful allocation it returns exactly 32 keystream bytes,
  for every key of at most \<open>INT_MAX\<close> bytes, the range of the \<^verbatim>\<open>int\<close> counter of
  \<^verbatim>\<open>absorb\<close>.
\<close>

theorem stream_fixed_length:
  assumes "length (S q0) = N" "length p = 32" "length key \<le> INT_MAX"
  shows "minminspritz_stream q0 key (Some p) =
           Inr (Some (fst (drips 32 (pending (absorb_spec (initialise_state q0) key)))))
     \<and> (\<exists>bs. minminspritz_stream q0 key (Some p) = Inr (Some bs) \<and> length bs = 32)
     \<and> absorb (initialise_state q0) key = Inr (absorb_spec (initialise_state q0) key)
     \<and> minminspritz_stream q0 key mem =
         map_sum id fst (squeeze (absorb_spec (initialise_state q0) key) 32 mem)"
proof (intro conjI)
  show eq: "minminspritz_stream q0 key (Some p) =
           Inr (Some (fst (drips 32 (pending (absorb_spec (initialise_state q0) key)))))"
    by (simp add: stream_eq [OF assms] initialise_state_eq [OF assms(1)] del: upt_rec_numeral)
  show "\<exists>bs. minminspritz_stream q0 key (Some p) = Inr (Some bs) \<and> length bs = 32"
    unfolding eq by simp
  show "absorb (initialise_state q0) key = Inr (absorb_spec (initialise_state q0) key)"
    using assms(3) by (rule absorb_eq)
  show "minminspritz_stream q0 key mem =
         map_sum id fst (squeeze (absorb_spec (initialise_state q0) key) 32 mem)"
    using assms(3) by (rule stream_squeeze)
qed

theorem stream_fixed_length_witness:
  "length (S \<lparr>i = 5, j = 6, k = 7, z = 8, a = 9, w = 10, S = replicate 256 0xAA\<rparr>) = N
   \<and> length (replicate 32 (0x11 :: u8)) = 32
   \<and> length [0x4B, 0x65, 0x79 :: u8] \<le> INT_MAX
   \<and> minminspritz_stream \<lparr>i = 5, j = 6, k = 7, z = 8, a = 9, w = 10, S = replicate 256 0xAA\<rparr>
        [0x4B, 0x65, 0x79] (Some (replicate 32 0x11)) =
       Inr (Some (fst (drips 32 (pending (absorb_spec (initialise_state
         \<lparr>i = 5, j = 6, k = 7, z = 8, a = 9, w = 10, S = replicate 256 0xAA\<rparr>)
         [0x4B, 0x65, 0x79])))))"
proof -
  let ?g = "\<lparr>i = 5, j = 6, k = 7, z = 8, a = 9, w = 10, S = replicate 256 0xAA\<rparr>"
  have g: "length (S ?g) = N" by simp
  have p: "length (replicate 32 (0x11 :: u8)) = 32" by simp
  have key: "length [0x4B, 0x65, 0x79 :: u8] \<le> INT_MAX" by (simp add: INT_MAX_def)
  have "minminspritz_stream ?g [0x4B, 0x65, 0x79] (Some (replicate 32 0x11)) =
       Inr (Some (fst (drips 32 (pending (absorb_spec (initialise_state ?g)
         [0x4B, 0x65, 0x79])))))"
    by (rule stream_fixed_length [OF g p key, THEN conjunct1])
  with g p key show ?thesis by (intro conjI)
qed

text \<open>
  The claim C6 as it was stated asks for a caller-chosen length. A caller that wants 64
  bytes of keystream for a key gets 32.
\<close>

theorem stream_length_counterexample:
  "map_sum id (map_option length)
     (minminspritz_stream \<lparr>i = 5, j = 6, k = 7, z = 8, a = 9, w = 10, S = replicate 256 0xAA\<rparr>
        [0x4B, 0x65, 0x79] (Some (replicate 32 0x11))) = Inr (Some 32)
   \<and> map_sum id (map_option length)
     (minminspritz_stream \<lparr>i = 5, j = 6, k = 7, z = 8, a = 9, w = 10, S = replicate 256 0xAA\<rparr>
        [0x4B, 0x65, 0x79] (Some (replicate 32 0x11))) \<noteq> Inr (Some 64)"
proof -
  let ?g = "\<lparr>i = 5, j = 6, k = 7, z = 8, a = 9, w = 10, S = replicate 256 0xAA\<rparr>"
  have g: "length (S ?g) = N" by simp
  have p: "length (replicate 32 (0x11 :: u8)) = 32" by simp
  have key: "length [0x4B, 0x65, 0x79 :: u8] \<le> INT_MAX" by (simp add: INT_MAX_def)
  show ?thesis
    by (simp add: stream_eq [OF g p key] del: upt_rec_numeral absorb_spec.simps)
qed

text \<open>
  Claim C7, as the code has it. \<^verbatim>\<open>squeeze\<close> does not test the pointer that \<^verbatim>\<open>malloc\<close>
  returns and has no error result. When the allocation fails, a call with \<open>r \<le> 0\<close>
  returns the null pointer, after the pending shuffle; a call with \<open>r > 0\<close> stores the
  first byte through the null pointer.
\<close>

theorem squeeze_allocation_failure:
  "squeeze q r None =
     (if 0 < r then Inl NullWrite else Inr (None, if a q = 0 then q else shuffle q))"
  by (rule squeeze_None)

text \<open>
  The claim C7 as it was stated asks for an allocation-failure error. With a failed
  allocation, \<^verbatim>\<open>squeeze\<close> for 5 bytes stores through the null pointer, and \<^verbatim>\<open>squeeze\<close>
  for 0 bytes returns the null pointer as its result.
\<close>

theorem squeeze_null_counterexample:
  "squeeze \<lparr>i = 0, j = 0, k = 0, z = 0, a = 0, w = 1, S = map of_nat [0..<256]\<rparr> 5 None
     = Inl NullWrite
   \<and> squeeze \<lparr>i = 0, j = 0, k = 0, z = 0, a = 0, w = 1, S = map of_nat [0..<256]\<rparr> 0 None
     = Inr (None, \<lparr>i = 0, j = 0, k = 0, z = 0, a = 0, w = 1, S = map of_nat [0..<256]\<rparr>)"
  by (simp add: squeeze_None del: upt_rec_numeral)

section \<open>Idempotence of crush\<close>

text \<open>
  Claim C10. \<^verbatim>\<open>crush\<close> is idempotent: after one call, \<open>S[v] \<le> S[255 - v]\<close> for every
  \<open>v\<close> in 0..127, so a second call swaps nothing and leaves the state of the first.
\<close>

theorem crush_idempotent:
  assumes "length (S q) = N"
  shows "(\<forall>v<128. S (crush q) ! v \<le> S (crush q) ! (255 - v)) \<and> crush (crush q) = crush q"
proof -
  have "\<forall>v<128. S (crush q) ! v \<le> S (crush q) ! (255 - v)"
    using crush_ordered [OF assms] by simp
  then show ?thesis by (simp add: crush_fixed)
qed

theorem crush_idempotent_witness:
  "length (S \<lparr>i = 0, j = 0, k = 0, z = 0, a = 0, w = 1, S = map of_nat (rev [0..<256])\<rparr>) = N
   \<and> S (crush \<lparr>i = 0, j = 0, k = 0, z = 0, a = 0, w = 1, S = map of_nat (rev [0..<256])\<rparr>) ! 5
       \<le> S (crush \<lparr>i = 0, j = 0, k = 0, z = 0, a = 0, w = 1, S = map of_nat (rev [0..<256])\<rparr>) ! (255 - 5)
   \<and> crush (crush \<lparr>i = 0, j = 0, k = 0, z = 0, a = 0, w = 1, S = map of_nat (rev [0..<256])\<rparr>)
     = crush \<lparr>i = 0, j = 0, k = 0, z = 0, a = 0, w = 1, S = map of_nat (rev [0..<256])\<rparr>"
proof -
  let ?q = "\<lparr>i = 0, j = 0, k = 0, z = 0, a = 0, w = 1, S = map of_nat (rev [0..<256])\<rparr>"
  have len: "length (S ?q) = N" by simp
  have ord: "\<forall>v<128. S (crush ?q) ! v \<le> S (crush ?q) ! (255 - v)"
    and idem: "crush (crush ?q) = crush ?q"
    using crush_idempotent [OF len] by simp_all
  from ord have "S (crush ?q) ! 5 \<le> S (crush ?q) ! (255 - 5)"
    by (rule allE [of _ 5]) simp
  with len idem show ?thesis by simp
qed

end
